theory Spec2Isabelle
  imports Main "HOL-Library.Sublist"
begin

section \<open>The KOStats scraper: data model\<close>

text \<open>
  The scraper of \<^verbatim>\<open>kostats_scraper.py\<close> is one class, \<^verbatim>\<open>KOStatsScraper\<close>,
  whose methods mutate \<^verbatim>\<open>self.download_history\<close>, the files under the download
  directory and the log, and talk to the web site through \<^verbatim>\<open>self.session\<close>.
  The model passes all of that explicitly: a \<open>state\<close> record for what the program
  changes, an \<open>env\<close> record for what it only reads (configuration, the library
  functions it calls and the answers of the network).
\<close>

text \<open>
  The only exception modelled is the one \<^verbatim>\<open>requests\<close> raises when a request gets no
  response at all (connection refused, timeout, ...); no \<^verbatim>\<open>try\<close> of the source
  catches it. The file system is modelled as a store of text files that never fails.
  The constructor (the check of the credentials, the creation of the directories, the
  call of \<^verbatim>\<open>_load_download_history\<close>) is not a function of the model: the methods are
  stated for every state, whatever history it holds.
\<close>

datatype exn = RequestException string

datatype level = INFO | ERROR

datatype request = GET string | POST string "(string \<times> string) list"

record response =
  status_code :: int
  body_text :: string
  content :: string

text \<open>One entry of the history: \<^verbatim>\<open>{"downloaded_at": ..., "url": ...}\<close>.\<close>

record download_record =
  downloaded_at :: string
  url :: string

text \<open>\<^verbatim>\<open>download_history\<close>: sport code \<open>\<rightharpoonup>\<close> (file name \<open>\<rightharpoonup>\<close> record).\<close>

type_synonym history = "string \<rightharpoonup> (string \<rightharpoonup> download_record)"

text \<open>
  What a run changes. \<open>files\<close> maps a path to the content of the file there;
  \<open>requests\<close> is the trace of the requests sent through the session, oldest first;
  \<open>logged\<close> is what went to the logger (kept apart from \<open>files\<close>);
  \<open>slept\<close> counts the seconds spent in \<^verbatim>\<open>time.sleep\<close>.
\<close>

record state =
  download_history :: history
  files :: "string \<rightharpoonup> string"
  requests :: "request list"
  logged :: "(level \<times> string) list"
  slept :: nat

text \<open>The login form as BeautifulSoup hands it over: its \<^verbatim>\<open>action\<close> attribute and, for
  each \<^verbatim>\<open>input\<close> in it, the \<^verbatim>\<open>name\<close> and \<^verbatim>\<open>value\<close> attributes (\<open>None\<close> when absent).\<close>

record form =
  form_action :: "string option"
  form_inputs :: "(string option \<times> string option) list"

text \<open>
  What a run reads. \<open>net n r\<close> is what the session returns for request \<open>r\<close> when
  \<open>n\<close> requests have been sent before it: a response, or the exception raised.
  \<open>now_isoformat n\<close> is \<^verbatim>\<open>datetime.now().isoformat()\<close> at that moment.
  \<open>urljoin\<close> is \<^verbatim>\<open>urllib.parse.urljoin\<close>; \<open>txt_hrefs\<close> gives, for a page, the
  \<^verbatim>\<open>href\<close> of every \<^verbatim>\<open>a\<close> element that
  \<^verbatim>\<open>soup.find_all('a', href=re.compile(r'\.TXT$', re.IGNORECASE))\<close> finds, in document
  order; \<open>find_login_form\<close> is the form that the two \<^verbatim>\<open>soup.find\<close> calls of
  \<^verbatim>\<open>login\<close> select; \<open>json_load\<close> is \<^verbatim>\<open>json.load\<close> on the text of a file, \<open>None\<close>
  standing for \<^verbatim>\<open>JSONDecodeError\<close>; \<open>json_dump\<close> is the text \<^verbatim>\<open>json.dump(..., indent=2)\<close>
  writes.
\<close>

record env =
  BASE_DOWNLOAD_DIR :: string
  USERNAME :: string
  PASSWORD :: string
  net :: "nat \<Rightarrow> request \<Rightarrow> exn + response"
  now_isoformat :: "nat \<Rightarrow> string"
  urljoin :: "string \<Rightarrow> string \<Rightarrow> string"
  txt_hrefs :: "string \<Rightarrow> string list"
  find_login_form :: "string \<Rightarrow> form option"
  json_load :: "string \<Rightarrow> history option"
  json_dump :: "history \<Rightarrow> string"

section \<open>Strings and paths\<close>

definition startswith :: "string \<Rightarrow> string \<Rightarrow> bool" where
  "startswith s p = (take (length p) s = p)"

definition endswith :: "string \<Rightarrow> string \<Rightarrow> bool" where
  "endswith s p = (length p \<le> length s \<and> drop (length s - length p) s = p)"

text \<open>\<^verbatim>\<open>needle in haystack\<close> on strings.\<close>

fun contains :: "string \<Rightarrow> string \<Rightarrow> bool" where
  "contains [] needle = (needle = [])"
| "contains (c # cs) needle = (startswith (c # cs) needle \<or> contains cs needle)"

text \<open>\<^verbatim>\<open>str.lower\<close>, on ASCII text.\<close>

definition lower_char :: "char \<Rightarrow> char" where
  "lower_char c =
     (let n = (of_char c :: nat) in if 65 \<le> n \<and> n \<le> 90 then char_of (n + 32) else c)"

definition lower :: "string \<Rightarrow> string" where
  "lower s = map lower_char s"

text \<open>\<^verbatim>\<open>str(n)\<close> for the integers that the log messages print.\<close>

fun str_nat :: "nat \<Rightarrow> string" where
  "str_nat n =
     (if n < 10 then [char_of (48 + n)] else str_nat (n div 10) @ [char_of (48 + n mod 10)])"

definition str_int :: "int \<Rightarrow> string" where
  "str_int i = (if i < 0 then CHR ''-'' # str_nat (nat (- i)) else str_nat (nat i))"

text \<open>\<^verbatim>\<open>os.path.join\<close> and \<^verbatim>\<open>os.path.basename\<close> of \<^verbatim>\<open>posixpath\<close>.\<close>

definition join_step :: "string \<Rightarrow> string \<Rightarrow> string" where
  "join_step path b =
     (if startswith b ''/'' then b
      else if path = [] \<or> endswith path ''/'' then path @ b
      else path @ ''/'' @ b)"

definition os_path_join :: "string \<Rightarrow> string list \<Rightarrow> string" where
  "os_path_join a p = foldl join_step a p"

definition basename :: "string \<Rightarrow> string" where
  "basename p = rev (takeWhile (\<lambda>c. c \<noteq> CHR ''/'') (rev p))"

section \<open>Configuration\<close>

definition BASE_URL :: string where
  "BASE_URL = ''http://www.kostats.com''"

definition LOGIN_URL :: string where
  "LOGIN_URL = ''http://www.kostats.com/amember5/member''"

definition HISTORY_FILE :: "env \<Rightarrow> string" where
  "HISTORY_FILE E = os_path_join (BASE_DOWNLOAD_DIR E) [''download_history.json'']"

text \<open>The dictionary \<^verbatim>\<open>SPORT_PAGES\<close>, in the order it is written (the order of its keys).\<close>

definition SPORT_PAGES :: "(string \<times> string) list" where
  "SPORT_PAGES =
     [(''CBK'', ''http://www.kostats.com/CBK_Subscription/CBK.HTM''),
      (''CFB'', ''http://www.kostats.com/CFB_Subscription/CFB.HTM''),
      (''MLB'', ''http://www.kostats.com/MLB_Subscription/MLB.HTM''),
      (''NBA'', ''http://www.kostats.com/NBA_Subscription/NBA.HTM''),
      (''NFL'', ''http://www.kostats.com/NFL_Subscription/NFL.HTM''),
      (''NHL'', ''http://www.kostats.com/NHL_Subscription/NHL.HTM'')]"

section \<open>Effects\<close>

definition log_info :: "string \<Rightarrow> state \<Rightarrow> state" where
  "log_info msg s = s\<lparr>logged := logged s @ [(INFO, msg)]\<rparr>"

definition log_error :: "string \<Rightarrow> state \<Rightarrow> state" where
  "log_error msg s = s\<lparr>logged := logged s @ [(ERROR, msg)]\<rparr>"

definition sleep :: "nat \<Rightarrow> state \<Rightarrow> state" where
  "sleep n s = s\<lparr>slept := slept s + n\<rparr>"

text \<open>\<^verbatim>\<open>self.session.get(u)\<close> and \<^verbatim>\<open>self.session.post(u, data=d)\<close>: the request joins
  the trace, and the network answers it.\<close>

definition session_send :: "env \<Rightarrow> request \<Rightarrow> state \<Rightarrow> (exn + response) \<times> state" where
  "session_send E r s = (net E (length (requests s)) r, s\<lparr>requests := requests s @ [r]\<rparr>)"

definition session_get :: "env \<Rightarrow> string \<Rightarrow> state \<Rightarrow> (exn + response) \<times> state" where
  "session_get E u s = session_send E (GET u) s"

definition session_post ::
  "env \<Rightarrow> string \<Rightarrow> (string \<times> string) list \<Rightarrow> state \<Rightarrow> (exn + response) \<times> state" where
  "session_post E u d s = session_send E (POST u d) s"

text \<open>\<^verbatim>\<open>open(path, 'w')\<close> (or \<^verbatim>\<open>'wb'\<close>) creates the file or truncates it; \<^verbatim>\<open>f.write(d)\<close>
  then appends to it.\<close>

definition open_w :: "string \<Rightarrow> state \<Rightarrow> state" where
  "open_w path s = s\<lparr>files := (files s)(path \<mapsto> [])\<rparr>"

definition file_write :: "string \<Rightarrow> string \<Rightarrow> state \<Rightarrow> state" where
  "file_write path d s =
     s\<lparr>files := (files s)(path \<mapsto> (case files s path of None \<Rightarrow> d | Some old \<Rightarrow> old @ d))\<rparr>"

section \<open>The history store\<close>

text \<open>\<^verbatim>\<open>_load_download_history\<close>: the dictionary read from the history file, the empty one
  when the file is absent or \<^verbatim>\<open>json.load\<close> raises \<^verbatim>\<open>JSONDecodeError\<close> (then with an
  error logged).\<close>

definition load_download_history :: "env \<Rightarrow> state \<Rightarrow> history \<times> state" where
  "load_download_history E s =
     (case files s (HISTORY_FILE E) of
        Some f \<Rightarrow>
          (case json_load E f of
             Some h \<Rightarrow> (h, s)
           | None \<Rightarrow> (Map.empty, log_error ''Error reading history file, starting fresh'' s))
      | None \<Rightarrow> (Map.empty, s))"

text \<open>\<^verbatim>\<open>_save_download_history\<close>: \<^verbatim>\<open>open(HISTORY_FILE, 'w')\<close>, then \<^verbatim>\<open>json.dump\<close> into it.\<close>

definition save_download_history :: "env \<Rightarrow> state \<Rightarrow> state" where
  "save_download_history E s =
     file_write (HISTORY_FILE E) (json_dump E (download_history s)) (open_w (HISTORY_FILE E) s)"

text \<open>The states of the store that \<^verbatim>\<open>_save_download_history\<close> goes through, one after each
  statement: before the call, after \<^verbatim>\<open>open\<close>, after \<^verbatim>\<open>json.dump\<close>. A crash leaves the
  file system in one of them.\<close>

definition save_download_history_trace :: "env \<Rightarrow> state \<Rightarrow> state list" where
  "save_download_history_trace E s =
     [s,
      open_w (HISTORY_FILE E) s,
      file_write (HISTORY_FILE E) (json_dump E (download_history s)) (open_w (HISTORY_FILE E) s)]"

section \<open>The downloader\<close>

text \<open>\<^verbatim>\<open>sport_code in self.download_history and file_name in self.download_history[sport_code]\<close>\<close>

definition already_downloaded :: "history \<Rightarrow> string \<Rightarrow> string \<Rightarrow> bool" where
  "already_downloaded h sport_code file_name =
     (case h sport_code of None \<Rightarrow> False | Some m \<Rightarrow> m file_name \<noteq> None)"

text \<open>The update of the history at the end of \<^verbatim>\<open>download_file\<close>: the sport's dictionary is
  created when missing, then the entry is stored.\<close>

definition record_download :: "string \<Rightarrow> string \<Rightarrow> download_record \<Rightarrow> history \<Rightarrow> history" where
  "record_download sport_code file_name r h =
     (let h1 = (if h sport_code = None then h(sport_code \<mapsto> Map.empty) else h)
      in case h1 sport_code of
           None \<Rightarrow> h1
         | Some m \<Rightarrow> h1(sport_code \<mapsto> m(file_name \<mapsto> r)))"

definition download_file ::
  "env \<Rightarrow> string \<Rightarrow> string \<Rightarrow> string \<Rightarrow> state \<Rightarrow> (exn + bool) \<times> state" where
  "download_file E sport_code file_name file_url s =
     (if already_downloaded (download_history s) sport_code file_name
      then (Inr False, log_info (''Skipping '' @ file_name @ '' - already downloaded'') s)
      else
        (case session_get E file_url (log_info (''Downloading '' @ file_name) s) of
           (Inl e, s2) \<Rightarrow> (Inl e, s2)
         | (Inr response, s2) \<Rightarrow>
             if status_code response \<noteq> 200
             then (Inr False,
                   log_error (''Failed to download '' @ file_url @ '', status code: ''
                              @ str_int (status_code response)) s2)
             else
               (let file_path = os_path_join (BASE_DOWNLOAD_DIR E) [sport_code, file_name];
                    s3 = file_write file_path (content response) (open_w file_path s2);
                    r = \<lparr>downloaded_at = now_isoformat E (length (requests s3)), url = file_url\<rparr>;
                    s4 = s3\<lparr>download_history :=
                              record_download sport_code file_name r (download_history s3)\<rparr>
                in (Inr True, log_info (''Successfully downloaded '' @ file_name) s4))))"

section \<open>The catalog fetcher\<close>

text \<open>\<^verbatim>\<open>SPORT_PAGES.get(sport_code)\<close> followed by \<^verbatim>\<open>if not sport_url\<close>: \<open>None\<close> when the
  code is no key (or its page is the empty string).\<close>

definition sport_page :: "string \<Rightarrow> string option" where
  "sport_page sport_code =
     (case map_of SPORT_PAGES sport_code of
        None \<Rightarrow> None
      | Some sport_url \<Rightarrow> if sport_url = [] then None else Some sport_url)"

definition get_file_links ::
  "env \<Rightarrow> string \<Rightarrow> state \<Rightarrow> (exn + (string \<times> string) list) \<times> state" where
  "get_file_links E sport_code s =
     (case sport_page sport_code of
        None \<Rightarrow> (Inr [], log_error (''Unknown sport code: '' @ sport_code) s)
      | Some sport_url \<Rightarrow>
          (case session_get E sport_url
                  (log_info (''Getting file links for '' @ sport_code) s) of
             (Inl e, s2) \<Rightarrow> (Inl e, s2)
           | (Inr response, s2) \<Rightarrow>
               if status_code response \<noteq> 200
               then (Inr [],
                     log_error (''Failed to access '' @ sport_url @ '', status code: ''
                                @ str_int (status_code response)) s2)
               else
                 (let links =
                        map (\<lambda>href. let file_url = urljoin E sport_url href
                                    in (basename file_url, file_url))
                            (txt_hrefs E (body_text response))
                  in (Inr links,
                      log_info (''Found '' @ str_nat (length links) @ '' files for ''
                                @ sport_code) s2))))"

section \<open>The reconciler\<close>

text \<open>The \<^verbatim>\<open>for\<close> loop of \<^verbatim>\<open>process_sport\<close>; \<open>downloaded_count\<close> is the counter.\<close>

fun download_loop ::
  "env \<Rightarrow> string \<Rightarrow> (string \<times> string) list \<Rightarrow> nat \<Rightarrow> state \<Rightarrow> (exn + nat) \<times> state" where
  "download_loop E sport_code [] downloaded_count s = (Inr downloaded_count, s)"
| "download_loop E sport_code ((file_name, file_url) # rest) downloaded_count s =
     (case download_file E sport_code file_name file_url s of
        (Inl e, s1) \<Rightarrow> (Inl e, s1)
      | (Inr b, s1) \<Rightarrow>
          download_loop E sport_code rest
            (if b then downloaded_count + 1 else downloaded_count) (sleep 1 s1))"

definition process_sport :: "env \<Rightarrow> string \<Rightarrow> state \<Rightarrow> (exn + nat) \<times> state" where
  "process_sport E sport_code s =
     (case get_file_links E sport_code s of
        (Inl e, s1) \<Rightarrow> (Inl e, s1)
      | (Inr file_links, s1) \<Rightarrow>
          (case download_loop E sport_code file_links 0 s1 of
             (Inl e, s2) \<Rightarrow> (Inl e, s2)
           | (Inr downloaded_count, s2) \<Rightarrow>
               (Inr downloaded_count,
                log_info (''Downloaded '' @ str_nat downloaded_count @ '' new files for ''
                          @ sport_code) s2)))"

section \<open>Login and the run\<close>

text \<open>\<^verbatim>\<open>d[k] = v\<close> on a dictionary kept as the list of its items.\<close>

fun dict_set :: "'k \<Rightarrow> 'v \<Rightarrow> ('k \<times> 'v) list \<Rightarrow> ('k \<times> 'v) list" where
  "dict_set k v [] = [(k, v)]"
| "dict_set k v ((k', v') # d) =
     (if k = k' then (k, v) # d else (k', v') # dict_set k v d)"

definition login :: "env \<Rightarrow> state \<Rightarrow> (exn + bool) \<times> state" where
  "login E s =
     (case session_get E LOGIN_URL (log_info ''Logging in to KOStats'' s) of
        (Inl e, s2) \<Rightarrow> (Inl e, s2)
      | (Inr login_page, s2) \<Rightarrow>
          (case find_login_form E (body_text login_page) of
             None \<Rightarrow> (Inr False, log_error ''Could not find login form'' s2)
           | Some f \<Rightarrow>
               (let action0 = (case form_action f of
                                 None \<Rightarrow> LOGIN_URL
                               | Some a \<Rightarrow> if a = [] then LOGIN_URL else a);
                    action = (if \<not> startswith action0 ''http''
                              then urljoin E BASE_URL action0 else action0);
                    form_data0 =
                      foldl (\<lambda>d (name, val).
                               case name of
                                 None \<Rightarrow> d
                               | Some n \<Rightarrow>
                                   if n = [] then d
                                   else dict_set n (case val of None \<Rightarrow> [] | Some v \<Rightarrow> v) d)
                            [] (form_inputs f);
                    form_data = dict_set ''amember_pass'' (PASSWORD E)
                                  (dict_set ''amember_login'' (USERNAME E) form_data0)
                in case session_post E action form_data s2 of
                     (Inl e, s3) \<Rightarrow> (Inl e, s3)
                   | (Inr response, s3) \<Rightarrow>
                       if contains (lower (body_text response)) ''logout''
                          \<or> contains (lower (body_text response)) ''my account''
                       then (Inr True, log_info ''Login successful'' s3)
                       else (Inr False, log_error ''Login failed'' s3))))"

text \<open>The \<^verbatim>\<open>for\<close> loop of \<^verbatim>\<open>run\<close> over \<^verbatim>\<open>SPORT_PAGES.keys()\<close>.\<close>

fun sports_loop :: "env \<Rightarrow> string list \<Rightarrow> nat \<Rightarrow> state \<Rightarrow> (exn + nat) \<times> state" where
  "sports_loop E [] total_downloaded s = (Inr total_downloaded, s)"
| "sports_loop E (sport_code # rest) total_downloaded s =
     (case process_sport E sport_code s of
        (Inl e, s1) \<Rightarrow> (Inl e, s1)
      | (Inr n, s1) \<Rightarrow> sports_loop E rest (total_downloaded + n) s1)"

definition run :: "env \<Rightarrow> state \<Rightarrow> (exn + unit) \<times> state" where
  "run E s =
     (case login E s of
        (Inl e, s1) \<Rightarrow> (Inl e, s1)
      | (Inr ok, s1) \<Rightarrow>
          if \<not> ok then (Inr (), log_error ''Login failed, aborting'' s1)
          else
            (case sports_loop E (map fst SPORT_PAGES) 0 s1 of
               (Inl e, s2) \<Rightarrow> (Inl e, s2)
             | (Inr total_downloaded, s2) \<Rightarrow>
                 (Inr (),
                  log_info (''Scraper completed. Downloaded '' @ str_nat total_downloaded
                            @ '' new files in total.'')
                    (save_download_history E s2))))"

section \<open>Notions the statements use\<close>

text \<open>The record stored for a sport code and a file name, if any.\<close>

definition lookup :: "history \<Rightarrow> string \<Rightarrow> string \<Rightarrow> download_record option" where
  "lookup h sport_code file_name =
     (case h sport_code of None \<Rightarrow> None | Some m \<Rightarrow> m file_name)"

text \<open>The set of names recorded for a sport code.\<close>

definition names_of :: "history \<Rightarrow> string \<Rightarrow> string set" where
  "names_of h sport_code = (case h sport_code of None \<Rightarrow> {} | Some m \<Rightarrow> dom m)"

text \<open>Request number \<open>n\<close>, if it is \<open>r\<close>, is answered, and with status 200.\<close>

definition fetch_ok :: "env \<Rightarrow> nat \<Rightarrow> request \<Rightarrow> bool" where
  "fetch_ok E n r = (case net E n r of Inl e \<Rightarrow> False | Inr resp \<Rightarrow> status_code resp = 200)"

text \<open>Every request sent after the first \<open>n\<close> ones of the trace \<open>rs\<close> was answered with
  status 200.\<close>

definition all_fetched_ok :: "env \<Rightarrow> nat \<Rightarrow> request list \<Rightarrow> bool" where
  "all_fetched_ok E n rs = (\<forall>i. n \<le> i \<and> i < length rs \<longrightarrow> fetch_ok E i (rs ! i))"

text \<open>The file of a sport code and a file name: \<^verbatim>\<open><base>/<sport>/<name>\<close>.\<close>

definition file_path :: "env \<Rightarrow> string \<Rightarrow> string \<Rightarrow> string" where
  "file_path E sport_code file_name =
     os_path_join (BASE_DOWNLOAD_DIR E) [sport_code, file_name]"

text \<open>
  The specification's delta, written from its words: of the listing \<open>B\<close>, the items whose
  name is not in \<open>A\<close>, each name once (its first occurrence), in the order of \<open>B\<close>.
\<close>

fun spec_delta :: "string set \<Rightarrow> (string \<times> string) list \<Rightarrow> (string \<times> string) list" where
  "spec_delta A [] = []"
| "spec_delta A ((name, u) # rest) =
     (if name \<in> A then spec_delta A rest else (name, u) # spec_delta (insert name A) rest)"

text \<open>
  The specification's effect of downloading the items \<open>D\<close> one after the other, the first
  with request number \<open>k\<close>: each is recorded in the history and its content stored in
  its file.
\<close>

fun spec_downloads ::
  "env \<Rightarrow> string \<Rightarrow> nat \<Rightarrow> (string \<times> string) list \<Rightarrow> history \<times> (string \<rightharpoonup> string)
     \<Rightarrow> history \<times> (string \<rightharpoonup> string)" where
  "spec_downloads E sport_code k [] hf = hf"
| "spec_downloads E sport_code k ((name, u) # D) hf =
     spec_downloads E sport_code (Suc k) D
       (record_download sport_code name
          \<lparr>downloaded_at = now_isoformat E (Suc k), url = u\<rparr> (fst hf),
        (snd hf)(file_path E sport_code name \<mapsto>
           (case net E k (GET u) of Inl e \<Rightarrow> [] | Inr resp \<Rightarrow> content resp)))"

section \<open>A concrete site\<close>

text \<open>
  A small site on which the statements below are tried. The page of \<open>CBK\<close> lists three
  links, \<^verbatim>\<open>A.TXT\<close>, \<^verbatim>\<open>B.TXT\<close> and \<^verbatim>\<open>old/B.TXT\<close>; the other sport pages answer 404; the file
  \<^verbatim>\<open>GONE.TXT\<close> answers 404; every other file is served. The history already holds
  \<^verbatim>\<open>A.TXT\<close> for \<open>CBK\<close> and a file for \<open>XFL\<close>, which is no configured sport.
\<close>

definition demo_net :: "nat \<Rightarrow> request \<Rightarrow> exn + response" where
  "demo_net n r =
     (case r of
        GET u \<Rightarrow>
          if u = ''http://www.kostats.com/CBK_Subscription/CBK.HTM''
          then Inr \<lparr>status_code = 200, body_text = ''cbk'', content = ''cbk''\<rparr>
          else if u = LOGIN_URL
          then Inr \<lparr>status_code = 200, body_text = ''login'', content = ''login''\<rparr>
          else if endswith u ''.HTM'' \<or> endswith u ''GONE.TXT''
          then Inr \<lparr>status_code = 404, body_text = ''Not Found'', content = ''Not Found''\<rparr>
          else Inr \<lparr>status_code = 200, body_text = u, content = ''data of '' @ u\<rparr>
      | POST u d \<Rightarrow>
          Inr \<lparr>status_code = 200, body_text = ''<a href=x>Logout</a>'', content = []\<rparr>)"

definition demo_record :: download_record where
  "demo_record = \<lparr>downloaded_at = ''2023-12-31T00:00:00'', url = ''http://old/A.TXT''\<rparr>"

definition demo_history :: history where
  "demo_history =
     [''CBK'' \<mapsto> [''A.TXT'' \<mapsto> demo_record], ''XFL'' \<mapsto> [''OLD.TXT'' \<mapsto> demo_record]]"

definition demo_env :: env where
  "demo_env =
     \<lparr>BASE_DOWNLOAD_DIR = ''downloads'',
      USERNAME = ''user'',
      PASSWORD = ''secret'',
      net = demo_net,
      now_isoformat = (\<lambda>n. ''2024-01-01T00:00:00''),
      urljoin = (\<lambda>base href. rev (dropWhile (\<lambda>c. c \<noteq> CHR ''/'') (rev base)) @ href),
      txt_hrefs = (\<lambda>page. if page = ''cbk'' then [''A.TXT'', ''B.TXT'', ''old/B.TXT''] else []),
      find_login_form =
        (\<lambda>page. if page = ''login''
                then Some \<lparr>form_action = Some ''/amember5/login'',
                           form_inputs = [(Some ''login_attempt_id'', Some ''7''),
                                          (None, Some ''x'')]\<rparr>
                else None),
      json_load =
        (\<lambda>t. if t = ''{}'' then Some Map.empty
             else if t = ''<json>'' then Some demo_history
             else None),
      json_dump = (\<lambda>h. ''<json>'')\<rparr>"

definition demo_state :: state where
  "demo_state =
     \<lparr>download_history = demo_history,
      files = [''downloads/download_history.json'' \<mapsto> ''<json>''],
      requests = [],
      logged = [],
      slept = 0\<rparr>"



definition formless_env :: env where
  "formless_env = demo_env\<lparr>find_login_form := (\<lambda>page. None)\<rparr>"


section \<open>Basic facts\<close>

declare str_nat.simps [simp del]

lemma log_info_proj [simp]:
  "download_history (log_info m s) = download_history s"
  "files (log_info m s) = files s"
  "requests (log_info m s) = requests s"
  "slept (log_info m s) = slept s"
  "logged (log_info m s) = logged s @ [(INFO, m)]"
  by (simp_all add: log_info_def)

lemma log_error_proj [simp]:
  "download_history (log_error m s) = download_history s"
  "files (log_error m s) = files s"
  "requests (log_error m s) = requests s"
  "slept (log_error m s) = slept s"
  "logged (log_error m s) = logged s @ [(ERROR, m)]"
  by (simp_all add: log_error_def)

lemma sleep_proj [simp]:
  "download_history (sleep n s) = download_history s"
  "files (sleep n s) = files s"
  "requests (sleep n s) = requests s"
  "logged (sleep n s) = logged s"
  "slept (sleep n s) = slept s + n"
  by (simp_all add: sleep_def)

lemma open_w_proj [simp]:
  "download_history (open_w p s) = download_history s"
  "files (open_w p s) = (files s)(p \<mapsto> [])"
  "requests (open_w p s) = requests s"
  "logged (open_w p s) = logged s"
  "slept (open_w p s) = slept s"
  by (simp_all add: open_w_def)

lemma file_write_proj [simp]:
  "download_history (file_write p d s) = download_history s"
  "files (file_write p d s)
     = (files s)(p \<mapsto> (case files s p of None \<Rightarrow> d | Some old \<Rightarrow> old @ d))"
  "requests (file_write p d s) = requests s"
  "logged (file_write p d s) = logged s"
  "slept (file_write p d s) = slept s"
  by (simp_all add: file_write_def)

lemma session_send_eq:
  "session_send E r s = (net E (length (requests s)) r, s\<lparr>requests := requests s @ [r]\<rparr>)"
  by (simp add: session_send_def)

lemma session_get_eq:
  "session_get E u s
     = (net E (length (requests s)) (GET u), s\<lparr>requests := requests s @ [GET u]\<rparr>)"
  by (simp add: session_get_def session_send_def)

lemma already_downloaded_lookup:
  "already_downloaded h c n \<longleftrightarrow> lookup h c n \<noteq> None"
  by (simp add: already_downloaded_def lookup_def split: option.splits)

lemma already_downloaded_iff: "already_downloaded h c n \<longleftrightarrow> n \<in> names_of h c"
  by (auto simp: already_downloaded_def names_of_def split: option.splits)

lemma lookup_record_download:
  "lookup (record_download c n r h) c' n'
     = (if c' = c \<and> n' = n then Some r else lookup h c' n')"
  by (auto simp: lookup_def record_download_def Let_def split: option.splits)

lemma names_of_record_download:
  "names_of (record_download c n r h) c'
     = (if c' = c then insert n (names_of h c) else names_of h c')"
  by (auto simp: names_of_def record_download_def Let_def split: option.splits if_splits)

lemma record_download_other: "c' \<noteq> c \<Longrightarrow> record_download c n r h c' = h c'"
  by (auto simp: record_download_def Let_def split: option.splits)

subsection \<open>The four ways through \<open>download_file\<close>\<close>

lemma download_file_hit:
  "already_downloaded (download_history s) c name \<Longrightarrow>
   download_file E c name u s
     = (Inr False, log_info (''Skipping '' @ name @ '' - already downloaded'') s)"
  by (simp add: download_file_def)

lemma download_file_raise:
  "\<not> already_downloaded (download_history s) c name \<Longrightarrow>
   net E (length (requests s)) (GET u) = Inl e \<Longrightarrow>
   download_file E c name u s
     = (Inl e, (log_info (''Downloading '' @ name) s)\<lparr>requests := requests s @ [GET u]\<rparr>)"
  by (simp add: download_file_def session_get_eq)


lemma download_file_ok:
  "\<not> already_downloaded (download_history s) c name \<Longrightarrow>
   net E (length (requests s)) (GET u) = Inr resp \<Longrightarrow>
   status_code resp = 200 \<Longrightarrow>
   \<exists>s'. download_file E c name u s = (Inr True, s') \<and>
     requests s' = requests s @ [GET u] \<and>
     files s' = (files s)(file_path E c name \<mapsto> content resp) \<and>
     download_history s'
       = record_download c name
           \<lparr>downloaded_at = now_isoformat E (Suc (length (requests s))), url = u\<rparr>
           (download_history s) \<and>
     slept s' = slept s \<and>
     logged s' = logged s @ [(INFO, ''Downloading '' @ name),
                             (INFO, ''Successfully downloaded '' @ name)]"
  by (simp add: download_file_def session_get_eq Let_def file_path_def)

lemma session_post_eq:
  "session_post E u d s
     = (net E (length (requests s)) (POST u d), s\<lparr>requests := requests s @ [POST u d]\<rparr>)"
  by (simp add: session_post_def session_send_def)

lemma HISTORY_FILE_demo: "HISTORY_FILE demo_env = ''downloads/download_history.json''"
  by (simp add: HISTORY_FILE_def demo_env_def os_path_join_def join_step_def
        startswith_def endswith_def)

section \<open>The downloader never fetches a recorded file again\<close>

text \<open>
  Claim C3. When the history holds a record for the sport code and the file name,
  \<open>download_file\<close> returns \<open>False\<close>, sends no request, and changes neither the
  history nor the files: the state it leaves differs from the one it found by one
  line of the log. This holds for every URL and every answer of the network.
\<close>

theorem download_file_never_refetches:
  assumes "lookup (download_history s) sport_code file_name = Some r"
  shows "fst (download_file E sport_code file_name file_url s) = Inr False
       \<and> requests (snd (download_file E sport_code file_name file_url s)) = requests s
       \<and> download_history (snd (download_file E sport_code file_name file_url s))
           = download_history s
       \<and> files (snd (download_file E sport_code file_name file_url s)) = files s
       \<and> snd (download_file E sport_code file_name file_url s)
           = s\<lparr>logged := logged s
                  @ [(INFO, ''Skipping '' @ file_name @ '' - already downloaded'')]\<rparr>"
proof -
  from assms have "already_downloaded (download_history s) sport_code file_name"
    by (simp add: already_downloaded_lookup)
  from download_file_hit [OF this, of E file_url] show ?thesis
    by (simp add: log_info_def)
qed

theorem download_file_never_refetches_witness:
  "lookup (download_history demo_state) ''CBK'' ''A.TXT'' = Some demo_record
   \<and> fst (download_file demo_env ''CBK'' ''A.TXT'' ''http://www.kostats.com/new/A.TXT''
            demo_state) = Inr False
   \<and> requests (snd (download_file demo_env ''CBK'' ''A.TXT''
                      ''http://www.kostats.com/new/A.TXT'' demo_state)) = []"
proof -
  have h: "lookup (download_history demo_state) ''CBK'' ''A.TXT'' = Some demo_record"
    by (simp add: lookup_def demo_state_def demo_history_def)
  from download_file_never_refetches [OF h, of demo_env "''http://www.kostats.com/new/A.TXT''"] h
  show ?thesis by (simp add: demo_state_def)
qed

section \<open>Loading the history\<close>



section \<open>The catalog fetcher on errors\<close>






lemma sport_page_CBK:
  "sport_page ''CBK'' = Some ''http://www.kostats.com/CBK_Subscription/CBK.HTM''"
  by (simp add: sport_page_def SPORT_PAGES_def)

subsection \<open>The four ways through \<open>get_file_links\<close>\<close>




lemma get_file_links_ok:
  "sport_page c = Some u \<Longrightarrow> net E (length (requests s)) (GET u) = Inr resp \<Longrightarrow>
   status_code resp = 200 \<Longrightarrow>
   get_file_links E c s
     = (Inr (map (\<lambda>href. (basename (urljoin E u href), urljoin E u href))
                 (txt_hrefs E (body_text resp))),
        log_info (''Found '' @ str_nat (length (txt_hrefs E (body_text resp)))
                  @ '' files for '' @ c)
          ((log_info (''Getting file links for '' @ c) s)\<lparr>requests := requests s @ [GET u]\<rparr>))"
  by (simp add: get_file_links_def session_get_eq Let_def)




section \<open>A failed login ends the run\<close>

lemma login_frame:
  "download_history (snd (login E s)) = download_history s
   \<and> files (snd (login E s)) = files s
   \<and> slept (snd (login E s)) = slept s
   \<and> (requests (snd (login E s)) = requests s @ [GET LOGIN_URL]
      \<or> (\<exists>a d. requests (snd (login E s)) = requests s @ [GET LOGIN_URL, POST a d]))"
  by (simp add: login_def session_get_eq session_post_eq Let_def split: sum.splits option.splits)

lemma run_login_raise:
  "fst (login E s) = Inl e \<Longrightarrow> run E s = (Inl e, snd (login E s))"
  by (cases "login E s") (simp add: run_def)

lemma run_login_false:
  "fst (login E s) = Inr False \<Longrightarrow>
   run E s = (Inr (), log_error ''Login failed, aborting'' (snd (login E s)))"
  by (cases "login E s") (simp add: run_def)

text \<open>
  Claim C8. When \<open>login\<close> does not return \<open>True\<close> (it returns \<open>False\<close>, or the request
  raises), \<open>run\<close> ends there: the history and the files are as before the run (so
  nothing was downloaded, recorded or saved), the run slept for no download, and the
  only requests it sent are those of \<open>login\<close> itself, the \<^verbatim>\<open>GET\<close> of the login page and at
  most the \<^verbatim>\<open>POST\<close> of the form: no sport page was asked for.
\<close>

theorem run_aborts_when_login_fails:
  assumes "fst (login E s) \<noteq> Inr True"
  shows "download_history (snd (run E s)) = download_history s
       \<and> files (snd (run E s)) = files s
       \<and> slept (snd (run E s)) = slept s
       \<and> requests (snd (run E s)) = requests (snd (login E s))
       \<and> (requests (snd (run E s)) = requests s @ [GET LOGIN_URL]
          \<or> (\<exists>a d. requests (snd (run E s)) = requests s @ [GET LOGIN_URL, POST a d]))
       \<and> (\<forall>e. fst (login E s) = Inl e \<longrightarrow> run E s = (Inl e, snd (login E s)))
       \<and> (fst (login E s) = Inr False \<longrightarrow>
            run E s = (Inr (), (snd (login E s))
                         \<lparr>logged := logged (snd (login E s))
                                     @ [(ERROR, ''Login failed, aborting'')]\<rparr>))"
proof (cases "fst (login E s)")
  case (Inl e)
  from run_login_raise [OF Inl] login_frame [of E s] Inl show ?thesis by simp
next
  case (Inr b)
  with assms have f: "fst (login E s) = Inr False" by simp
  from run_login_false [OF f] login_frame [of E s] f show ?thesis by (simp add: log_error_def)
qed

theorem run_aborts_when_login_fails_witness:
  "fst (login formless_env demo_state) = Inr False
   \<and> fst (run formless_env demo_state) = Inr ()
   \<and> requests (snd (run formless_env demo_state)) = [GET LOGIN_URL]
   \<and> files (snd (run formless_env demo_state)) = files demo_state
   \<and> download_history (snd (run formless_env demo_state)) = download_history demo_state"
proof -
  have l: "fst (login formless_env demo_state) = Inr False"
    by (simp add: login_def session_get_eq formless_env_def demo_env_def demo_net_def
          LOGIN_URL_def)
  then have h: "fst (login formless_env demo_state) \<noteq> Inr True" by simp
  have r: "requests (snd (login formless_env demo_state)) = [GET LOGIN_URL]"
    by (simp add: login_def session_get_eq formless_env_def demo_env_def demo_net_def
          demo_state_def)
  note th = run_aborts_when_login_fails [OF h]
  from th l have a: "fst (run formless_env demo_state) = Inr ()" by simp
  from th have b: "requests (snd (run formless_env demo_state))
                     = requests (snd (login formless_env demo_state))" by blast
  from th have c: "files (snd (run formless_env demo_state)) = files demo_state" by blast
  from th have d: "download_history (snd (run formless_env demo_state))
                     = download_history demo_state" by blast
  from l a b c d r show ?thesis by simp
qed

section \<open>The loop of \<open>process_sport\<close>\<close>

text \<open>Listing changes neither the history nor the files.\<close>

lemma get_file_links_frame:
  "download_history (snd (get_file_links E c s)) = download_history s
   \<and> files (snd (get_file_links E c s)) = files s
   \<and> slept (snd (get_file_links E c s)) = slept s"
  by (simp add: get_file_links_def session_get_eq Let_def split: option.splits sum.splits)

lemma download_file_requests_prefix:
  "\<exists>ext. requests (snd (download_file E c name u s)) = requests s @ ext"
  by (auto simp: download_file_def session_get_eq Let_def split: sum.splits)

lemma download_loop_requests_prefix:
  "\<exists>ext. requests (snd (download_loop E c items k s)) = requests s @ ext"
proof (induction items arbitrary: k s)
  case Nil
  show ?case by simp
next
  case (Cons item rest)
  obtain name u where item: "item = (name, u)" by (cases item)
  obtain r s1 where df: "download_file E c name u s = (r, s1)"
    by (cases "download_file E c name u s")
  from download_file_requests_prefix [of E c name u s] df
  obtain e1 where e1: "requests s1 = requests s @ e1" by auto
  show ?case
  proof (cases r)
    case (Inl e)
    with item df e1 show ?thesis by simp
  next
    case (Inr b)
    from Cons.IH [of "if b then k + 1 else k" "sleep 1 s1"]
    obtain e2 where
      "requests (snd (download_loop E c rest (if b then k + 1 else k) (sleep 1 s1)))
         = requests (sleep 1 s1) @ e2"
      by blast
    with item df e1 Inr show ?thesis by simp
  qed
qed

lemma download_loop_miss_requests:
  assumes "\<not> already_downloaded (download_history s) c name"
  shows "\<exists>ext. requests (snd (download_loop E c ((name, u) # rest) k s))
                 = requests s @ GET u # ext"
proof -
  obtain r s1 where df: "download_file E c name u s = (r, s1)"
    by (cases "download_file E c name u s")
  from assms df have rq: "requests s1 = requests s @ [GET u]"
    by (auto simp: download_file_def session_get_eq Let_def split: sum.splits if_splits)
  show ?thesis
  proof (cases r)
    case (Inl e)
    with df rq show ?thesis by simp
  next
    case (Inr b)
    from download_loop_requests_prefix [of E c rest "if b then k + 1 else k" "sleep 1 s1"]
    obtain e2 where
      "requests (snd (download_loop E c rest (if b then k + 1 else k) (sleep 1 s1)))
         = requests (sleep 1 s1) @ e2"
      by blast
    with df rq Inr show ?thesis by simp
  qed
qed

lemma download_loop_all_ok:
  assumes "all_fetched_ok E (length (requests s)) (requests (snd (download_loop E c items k s)))"
  shows "\<exists>s'. download_loop E c items k s
                 = (Inr (k + length (spec_delta (names_of (download_history s) c) items)), s')
           \<and> requests s'
               = requests s @ map (GET \<circ> snd) (spec_delta (names_of (download_history s) c) items)
           \<and> (download_history s', files s')
               = spec_downloads E c (length (requests s))
                   (spec_delta (names_of (download_history s) c) items)
                   (download_history s, files s)
           \<and> slept s' = slept s + length items"
  using assms
proof (induction items arbitrary: k s)
  case Nil
  show ?case by simp
next
  case (Cons item rest)
  obtain name u where item: "item = (name, u)" by (cases item)
  let ?A = "names_of (download_history s) c"
  show ?case
  proof (cases "name \<in> ?A")
    case True
    then have hit: "already_downloaded (download_history s) c name"
      by (simp add: already_downloaded_iff)
    let ?s1 = "sleep 1 (log_info (''Skipping '' @ name @ '' - already downloaded'') s)"
    have step: "download_loop E c (item # rest) k s = download_loop E c rest k ?s1"
      by (simp add: item download_file_hit [OF hit])
    have "all_fetched_ok E (length (requests ?s1)) (requests (snd (download_loop E c rest k ?s1)))"
      using Cons.prems unfolding step by simp
    from Cons.IH [OF this] obtain s' where
      "download_loop E c rest k ?s1
         = (Inr (k + length (spec_delta (names_of (download_history ?s1) c) rest)), s')"
      "requests s'
         = requests ?s1 @ map (GET \<circ> snd) (spec_delta (names_of (download_history ?s1) c) rest)"
      "(download_history s', files s')
         = spec_downloads E c (length (requests ?s1))
             (spec_delta (names_of (download_history ?s1) c) rest)
             (download_history ?s1, files ?s1)"
      "slept s' = slept ?s1 + length rest"
      by blast
    with True show ?thesis
      unfolding step by (simp add: item)
  next
    case False
    then have miss: "\<not> already_downloaded (download_history s) c name"
      by (simp add: already_downloaded_iff)
    let ?final = "requests (snd (download_loop E c (item # rest) k s))"
    from download_loop_miss_requests [OF miss, of E u rest k]
    obtain ext where ext: "?final = requests s @ GET u # ext" by (auto simp: item)
    have "length (requests s) \<le> length (requests s) \<and> length (requests s) < length ?final"
      by (simp add: ext)
    with Cons.prems have "fetch_ok E (length (requests s)) (?final ! length (requests s))"
      unfolding all_fetched_ok_def by blast
    then have "fetch_ok E (length (requests s)) (GET u)"
      by (simp add: ext)
    then obtain resp where
      resp: "net E (length (requests s)) (GET u) = Inr resp" "status_code resp = 200"
      by (auto simp: fetch_ok_def split: sum.splits)
    from download_file_ok [OF miss resp]
    obtain s1 where df: "download_file E c name u s = (Inr True, s1)"
      and rq: "requests s1 = requests s @ [GET u]"
      and fl: "files s1 = (files s)(file_path E c name \<mapsto> content resp)"
      and dh: "download_history s1 = record_download c name
                 \<lparr>downloaded_at = now_isoformat E (Suc (length (requests s))), url = u\<rparr>
                 (download_history s)"
      and sl: "slept s1 = slept s"
      by blast
    let ?s2 = "sleep 1 s1"
    have step: "download_loop E c (item # rest) k s = download_loop E c rest (k + 1) ?s2"
      by (simp add: item df)
    have "all_fetched_ok E (length (requests ?s2))
            (requests (snd (download_loop E c rest (k + 1) ?s2)))"
      using Cons.prems unfolding step all_fetched_ok_def by (simp add: rq)
    from Cons.IH [OF this] obtain s' where
      "download_loop E c rest (k + 1) ?s2
         = (Inr (k + 1 + length (spec_delta (names_of (download_history ?s2) c) rest)), s')"
      "requests s'
         = requests ?s2 @ map (GET \<circ> snd) (spec_delta (names_of (download_history ?s2) c) rest)"
      "(download_history s', files s')
         = spec_downloads E c (length (requests ?s2))
             (spec_delta (names_of (download_history ?s2) c) rest)
             (download_history ?s2, files ?s2)"
      "slept s' = slept ?s2 + length rest"
      by blast
    with False show ?thesis
      unfolding step by (simp add: item rq dh fl sl resp names_of_record_download)
  qed
qed

lemma spec_delta_names: "fst ` set (spec_delta A B) = fst ` set B - A"
  by (induction A B rule: spec_delta.induct) auto




lemma names_of_spec_downloads:
  "names_of (fst (spec_downloads E c k D hf)) c = names_of (fst hf) c \<union> fst ` set D"
  by (induction E c k D hf rule: spec_downloads.induct) (auto simp: names_of_record_download)

lemma process_sport_requests:
  "get_file_links E c s = (Inr B, s0) \<Longrightarrow>
   requests (snd (process_sport E c s)) = requests (snd (download_loop E c B 0 s0))"
  by (simp add: process_sport_def split: prod.splits sum.splits)

lemma process_sport_all_ok:
  assumes links: "get_file_links E c s = (Inr B, s0)"
      and ok: "all_fetched_ok E (length (requests s0)) (requests (snd (process_sport E c s)))"
  shows "\<exists>s'. process_sport E c s
                 = (Inr (length (spec_delta (names_of (download_history s) c) B)), s')
           \<and> requests s'
               = requests s0 @ map (GET \<circ> snd) (spec_delta (names_of (download_history s) c) B)
           \<and> (download_history s', files s')
               = spec_downloads E c (length (requests s0))
                   (spec_delta (names_of (download_history s) c) B)
                   (download_history s, files s)
           \<and> slept s' = slept s + length B"
proof -
  from get_file_links_frame [of E c s] links
  have fr: "download_history s0 = download_history s" "files s0 = files s" "slept s0 = slept s"
    by simp_all
  from ok have "all_fetched_ok E (length (requests s0)) (requests (snd (download_loop E c B 0 s0)))"
    by (simp add: process_sport_requests [OF links])
  from download_loop_all_ok [OF this] obtain s2 where
    "download_loop E c B 0 s0
       = (Inr (0 + length (spec_delta (names_of (download_history s0) c) B)), s2)"
    "requests s2
       = requests s0 @ map (GET \<circ> snd) (spec_delta (names_of (download_history s0) c) B)"
    "(download_history s2, files s2)
       = spec_downloads E c (length (requests s0))
           (spec_delta (names_of (download_history s0) c) B)
           (download_history s0, files s0)"
    "slept s2 = slept s0 + length B"
    by blast
  with links fr show ?thesis
    by (simp add: process_sport_def)
qed

lemma demo_links:
  "get_file_links demo_env ''CBK'' demo_state
     = (Inr [(''A.TXT'', ''http://www.kostats.com/CBK_Subscription/A.TXT''),
             (''B.TXT'', ''http://www.kostats.com/CBK_Subscription/B.TXT''),
             (''B.TXT'', ''http://www.kostats.com/CBK_Subscription/old/B.TXT'')],
        snd (get_file_links demo_env ''CBK'' demo_state))"
  "requests (snd (get_file_links demo_env ''CBK'' demo_state))
     = [GET ''http://www.kostats.com/CBK_Subscription/CBK.HTM'']"
proof -
  let ?resp = "\<lparr>status_code = 200, body_text = ''cbk'', content = ''cbk''\<rparr>"
  have n: "net demo_env (length (requests demo_state))
             (GET ''http://www.kostats.com/CBK_Subscription/CBK.HTM'') = Inr ?resp"
    by (simp add: demo_env_def demo_net_def)
  have c: "status_code ?resp = 200" by simp
  have t: "txt_hrefs demo_env (body_text ?resp) = [''A.TXT'', ''B.TXT'', ''old/B.TXT'']"
    by (simp add: demo_env_def)
  have r: "requests demo_state = []" by (simp add: demo_state_def)
  have j: "urljoin demo_env ''http://www.kostats.com/CBK_Subscription/CBK.HTM'' href
             = ''http://www.kostats.com/CBK_Subscription/'' @ href" for href
    by (simp add: demo_env_def)
  note g = get_file_links_ok [OF sport_page_CBK n c]
  show "get_file_links demo_env ''CBK'' demo_state
     = (Inr [(''A.TXT'', ''http://www.kostats.com/CBK_Subscription/A.TXT''),
             (''B.TXT'', ''http://www.kostats.com/CBK_Subscription/B.TXT''),
             (''B.TXT'', ''http://www.kostats.com/CBK_Subscription/old/B.TXT'')],
        snd (get_file_links demo_env ''CBK'' demo_state))"
    unfolding g t by (simp add: basename_def j)
  show "requests (snd (get_file_links demo_env ''CBK'' demo_state))
     = [GET ''http://www.kostats.com/CBK_Subscription/CBK.HTM'']"
    unfolding g by (simp add: r)
qed

lemma demo_names: "names_of (download_history demo_state) ''CBK'' = {''A.TXT''}"
  by (simp add: names_of_def demo_state_def demo_history_def)

lemma demo_fetch_ok: "\<not> endswith u ''.HTM'' \<Longrightarrow> \<not> endswith u ''GONE.TXT'' \<Longrightarrow> fetch_ok demo_env n (GET u)"
  by (simp add: fetch_ok_def demo_env_def demo_net_def)

lemma download_file_requests_cases:
  "requests (snd (download_file E c name u s))
     = (if already_downloaded (download_history s) c name then requests s
        else requests s @ [GET u])"
  by (simp add: download_file_def session_get_eq Let_def split: sum.splits)

lemma download_file_names_mono:
  "names_of (download_history s) c \<subseteq> names_of (download_history (snd (download_file E c' name u s))) c"
  by (auto simp: download_file_def session_get_eq Let_def names_of_record_download
           split: sum.splits)

lemma download_loop_attempts:
  "\<exists>att. subseq att items
         \<and> requests (snd (download_loop E c items k s)) = requests s @ map (GET \<circ> snd) att
         \<and> fst ` set att \<inter> names_of (download_history s) c = {}"
proof (induction items arbitrary: k s)
  case Nil
  show ?case by simp
next
  case (Cons item rest)
  obtain name u where item: "item = (name, u)" by (cases item)
  obtain r s1 where df: "download_file E c name u s = (r, s1)"
    by (cases "download_file E c name u s")
  from download_file_requests_cases [of E c name u s] df
  have rq: "requests s1 = (if already_downloaded (download_history s) c name then requests s
                          else requests s @ [GET u])" by simp
  from download_file_names_mono [of s c E c name u] df
  have mono: "names_of (download_history s) c \<subseteq> names_of (download_history s1) c" by simp
  show ?case
  proof (cases r)
    case (Inl e)
    with df have miss: "\<not> already_downloaded (download_history s) c name"
      by (auto simp: download_file_hit)
    have "subseq [item] (item # rest)" by simp
    moreover from Inl df rq miss
    have "requests (snd (download_loop E c (item # rest) k s))
            = requests s @ map (GET \<circ> snd) [item]" by (simp add: item)
    moreover from miss have "fst ` set [item] \<inter> names_of (download_history s) c = {}"
      by (simp add: item already_downloaded_iff)
    ultimately show ?thesis by blast
  next
    case (Inr b)
    let ?k = "if b then k + 1 else k"
    from Cons.IH [of ?k "sleep 1 s1"] obtain att where
      att: "subseq att rest"
        "requests (snd (download_loop E c rest ?k (sleep 1 s1)))
           = requests (sleep 1 s1) @ map (GET \<circ> snd) att"
        "fst ` set att \<inter> names_of (download_history (sleep 1 s1)) c = {}"
      by blast
    from att(3) mono have dj: "fst ` set att \<inter> names_of (download_history s) c = {}"
      by auto
    have step: "download_loop E c (item # rest) k s = download_loop E c rest ?k (sleep 1 s1)"
      by (simp add: item df Inr)
    show ?thesis
    proof (cases "already_downloaded (download_history s) c name")
      case True
      from att(1) have "subseq att (item # rest)" by (rule list_emb_Cons)
      moreover from att(2) rq True
      have "requests (snd (download_loop E c (item # rest) k s))
              = requests s @ map (GET \<circ> snd) att" unfolding step by simp
      ultimately show ?thesis using dj by blast
    next
      case False
      from att(1) have "subseq (item # att) (item # rest)" by simp
      moreover from att(2) rq False
      have "requests (snd (download_loop E c (item # rest) k s))
              = requests s @ map (GET \<circ> snd) (item # att)" unfolding step by (simp add: item)
      moreover from dj False
      have "fst ` set (item # att) \<inter> names_of (download_history s) c = {}"
        by (simp add: item already_downloaded_iff)
      ultimately show ?thesis by blast
    qed
  qed
qed

lemma all_fetched_ok_loop:
  assumes "\<And>n x. x \<in> set items \<Longrightarrow> fetch_ok E n (GET (snd x))"
  shows "all_fetched_ok E (length (requests s)) (requests (snd (download_loop E c items k s)))"
proof -
  from download_loop_attempts [of items E c k s] obtain att where
    att: "subseq att items"
      "requests (snd (download_loop E c items k s)) = requests s @ map (GET \<circ> snd) att"
    by blast
  from att(1) have sub: "set att \<subseteq> set items" by (auto dest: list_emb_set)
  show ?thesis
    unfolding all_fetched_ok_def att(2)
  proof (intro allI impI)
    fix i
    assume i: "length (requests s) \<le> i \<and> i < length (requests s @ map (GET \<circ> snd) att)"
    then have lt: "i - length (requests s) < length att" by auto
    from i have "(requests s @ map (GET \<circ> snd) att) ! i
                   = map (GET \<circ> snd) att ! (i - length (requests s))"
      by (simp add: nth_append)
    with lt have "(requests s @ map (GET \<circ> snd) att) ! i
                   = GET (snd (att ! (i - length (requests s))))"
      by simp
    moreover from lt sub have "att ! (i - length (requests s)) \<in> set items"
      using nth_mem by blast
    then have "fetch_ok E i (GET (snd (att ! (i - length (requests s)))))"
      by (rule assms)
    ultimately show "fetch_ok E i ((requests s @ map (GET \<circ> snd) att) ! i)"
      by simp
  qed
qed

lemma demo_all_fetched_ok:
  "all_fetched_ok demo_env (length (requests (snd (get_file_links demo_env ''CBK'' demo_state))))
     (requests (snd (process_sport demo_env ''CBK'' demo_state)))"
  unfolding process_sport_requests [OF demo_links(1)]
  by (rule all_fetched_ok_loop) (auto simp: demo_fetch_ok endswith_def)

lemma demo_delta:
  "spec_delta {''A.TXT''}
             [(''A.TXT'', ''http://www.kostats.com/CBK_Subscription/A.TXT''),
              (''B.TXT'', ''http://www.kostats.com/CBK_Subscription/B.TXT''),
              (''B.TXT'', ''http://www.kostats.com/CBK_Subscription/old/B.TXT'')]
           = [(''B.TXT'', ''http://www.kostats.com/CBK_Subscription/B.TXT'')]"
  by simp


lemma download_loop_all_present:
  "fst ` set items \<subseteq> names_of (download_history s) c \<Longrightarrow>
   \<exists>s'. download_loop E c items k s = (Inr k, s')
      \<and> requests s' = requests s
      \<and> download_history s' = download_history s
      \<and> files s' = files s"
proof (induction items arbitrary: s)
  case Nil
  show ?case by simp
next
  case (Cons item rest)
  obtain name u where item: "item = (name, u)" by (cases item)
  from Cons.prems have hit: "already_downloaded (download_history s) c name"
    by (simp add: item already_downloaded_iff)
  let ?s1 = "sleep 1 (log_info (''Skipping '' @ name @ '' - already downloaded'') s)"
  have step: "download_loop E c (item # rest) k s = download_loop E c rest k ?s1"
    by (simp add: item download_file_hit [OF hit])
  from Cons.prems have "fst ` set rest \<subseteq> names_of (download_history ?s1) c" by simp
  from Cons.IH [OF this] show ?case unfolding step by simp
qed

lemma demo_links_any:
  "fst (get_file_links demo_env ''CBK'' s)
     = Inr [(''A.TXT'', ''http://www.kostats.com/CBK_Subscription/A.TXT''),
             (''B.TXT'', ''http://www.kostats.com/CBK_Subscription/B.TXT''),
             (''B.TXT'', ''http://www.kostats.com/CBK_Subscription/old/B.TXT'')]"
  "requests (snd (get_file_links demo_env ''CBK'' s))
     = requests s @ [GET ''http://www.kostats.com/CBK_Subscription/CBK.HTM'']"
proof -
  let ?resp = "\<lparr>status_code = 200, body_text = ''cbk'', content = ''cbk''\<rparr>"
  have n: "net demo_env (length (requests s))
             (GET ''http://www.kostats.com/CBK_Subscription/CBK.HTM'') = Inr ?resp"
    by (simp add: demo_env_def demo_net_def)
  have c: "status_code ?resp = 200" by simp
  have t: "txt_hrefs demo_env (body_text ?resp) = [''A.TXT'', ''B.TXT'', ''old/B.TXT'']"
    by (simp add: demo_env_def)
  have j: "urljoin demo_env ''http://www.kostats.com/CBK_Subscription/CBK.HTM'' href
             = ''http://www.kostats.com/CBK_Subscription/'' @ href" for href
    by (simp add: demo_env_def)
  note g = get_file_links_ok [OF sport_page_CBK n c]
  show "fst (get_file_links demo_env ''CBK'' s)
     = Inr [(''A.TXT'', ''http://www.kostats.com/CBK_Subscription/A.TXT''),
             (''B.TXT'', ''http://www.kostats.com/CBK_Subscription/B.TXT''),
             (''B.TXT'', ''http://www.kostats.com/CBK_Subscription/old/B.TXT'')]"
    unfolding g t by (simp add: basename_def j)
  show "requests (snd (get_file_links demo_env ''CBK'' s))
     = requests s @ [GET ''http://www.kostats.com/CBK_Subscription/CBK.HTM'']"
    unfolding g by simp
qed

section \<open>Delta correctness\<close>




section \<open>Idempotence\<close>

text \<open>
  Claim C4. Take a first pass of \<open>process_sport\<close> over a listing \<open>B\<close> in which every
  request after the listing is answered with status 200. A second pass that sees the
  history the first one left (in the same process, or in a later one that loaded it),
  and the same listing \<open>B\<close>, returns 0, sends no request after its listing, and leaves
  history and files as they are: every name of \<open>B\<close> is in the history it sees.
\<close>

theorem process_sport_idempotent:
  assumes "get_file_links E sport_code s = (Inr B, s0)"
      and "all_fetched_ok E (length (requests s0)) (requests (snd (process_sport E sport_code s)))"
      and "download_history t = download_history (snd (process_sport E sport_code s))"
      and "get_file_links E' sport_code t = (Inr B, t0)"
  shows "fst ` set B \<subseteq> names_of (download_history t) sport_code
       \<and> fst (process_sport E' sport_code t) = Inr 0
       \<and> requests (snd (process_sport E' sport_code t)) = requests t0
       \<and> download_history (snd (process_sport E' sport_code t)) = download_history t
       \<and> files (snd (process_sport E' sport_code t)) = files t"
proof -
  let ?s1 = "snd (process_sport E sport_code s)"
  let ?A = "names_of (download_history s) sport_code"
  from process_sport_all_ok [OF assms(1,2)]
  have "(download_history ?s1, files ?s1)
          = spec_downloads E sport_code (length (requests s0)) (spec_delta ?A B)
              (download_history s, files s)"
    by auto
  then have "download_history ?s1
      = fst (spec_downloads E sport_code (length (requests s0)) (spec_delta ?A B)
               (download_history s, files s))"
    by (metis fst_conv)
  then have "names_of (download_history ?s1) sport_code = ?A \<union> fst ` set (spec_delta ?A B)"
    by (simp add: names_of_spec_downloads)
  then have "fst ` set B \<subseteq> names_of (download_history ?s1) sport_code"
    by (auto simp: spec_delta_names)
  with assms(3) have present: "fst ` set B \<subseteq> names_of (download_history t) sport_code"
    by simp
  from get_file_links_frame [of E' sport_code t] assms(4)
  have fr: "download_history t0 = download_history t" "files t0 = files t"
    by simp_all
  from present fr have "fst ` set B \<subseteq> names_of (download_history t0) sport_code" by simp
  from download_loop_all_present [OF this, of E' 0] obtain t1 where
    "download_loop E' sport_code B 0 t0 = (Inr 0, t1)"
    "requests t1 = requests t0" "download_history t1 = download_history t0" "files t1 = files t0"
    by blast
  with assms(4) fr present show ?thesis
    by (simp add: process_sport_def)
qed

theorem process_sport_idempotent_witness:
  "fst (process_sport demo_env ''CBK'' demo_state) = Inr 1
   \<and> fst (process_sport demo_env ''CBK'' (snd (process_sport demo_env ''CBK'' demo_state))) = Inr 0
   \<and> requests (snd (process_sport demo_env ''CBK'' (snd (process_sport demo_env ''CBK'' demo_state))))
       = [GET ''http://www.kostats.com/CBK_Subscription/CBK.HTM'',
          GET ''http://www.kostats.com/CBK_Subscription/B.TXT'',
          GET ''http://www.kostats.com/CBK_Subscription/CBK.HTM'']"
proof -
  let ?B = "[(''A.TXT'', ''http://www.kostats.com/CBK_Subscription/A.TXT''),
             (''B.TXT'', ''http://www.kostats.com/CBK_Subscription/B.TXT''),
             (''B.TXT'', ''http://www.kostats.com/CBK_Subscription/old/B.TXT'')]"
  let ?s1 = "snd (process_sport demo_env ''CBK'' demo_state)"
  have l2: "get_file_links demo_env ''CBK'' ?s1 = (Inr ?B, snd (get_file_links demo_env ''CBK'' ?s1))"
    using demo_links_any(1) [of ?s1] by (metis prod.collapse)
  note th = process_sport_idempotent [OF demo_links(1) demo_all_fetched_ok refl l2]
  note first = process_sport_all_ok [OF demo_links(1) demo_all_fetched_ok]
  from first have a: "fst (process_sport demo_env ''CBK'' demo_state) = Inr 1"
    unfolding demo_names demo_delta by auto
  from first have r1: "requests ?s1 = [GET ''http://www.kostats.com/CBK_Subscription/CBK.HTM'',
          GET ''http://www.kostats.com/CBK_Subscription/B.TXT'']"
    unfolding demo_names demo_delta demo_links(2) by auto
  from th have b: "fst (process_sport demo_env ''CBK'' ?s1) = Inr 0" by blast
  from th have c: "requests (snd (process_sport demo_env ''CBK'' ?s1))
                     = requests (snd (get_file_links demo_env ''CBK'' ?s1))" by blast
  from a b c show ?thesis
    by (simp add: demo_links_any(2) r1)
qed

section \<open>Two links with the same basename\<close>

lemma basename_no_slash: "CHR ''/'' \<notin> set (basename p)"
  by (auto simp: basename_def dest: set_takeWhileD)

lemma join_step_inj:
  assumes "CHR ''/'' \<notin> set n1" and "CHR ''/'' \<notin> set n2"
      and "join_step p n1 = join_step p n2"
  shows "n1 = n2"
proof -
  have ns: "\<not> startswith n ''/''" if "CHR ''/'' \<notin> set n" for n
    using that by (cases n) (auto simp: startswith_def)
  from assms ns [of n1] ns [of n2] show ?thesis
    by (auto simp: join_step_def split: if_splits)
qed

lemma file_path_inj:
  "CHR ''/'' \<notin> set n1 \<Longrightarrow> CHR ''/'' \<notin> set n2 \<Longrightarrow>
   file_path E c n1 = file_path E c n2 \<Longrightarrow> n1 = n2"
  by (auto simp: file_path_def os_path_join_def dest: join_step_inj)

lemma get_file_links_items:
  "get_file_links E c s = (Inr links, s0) \<Longrightarrow> x \<in> set links \<Longrightarrow> fst x = basename (snd x)"
  by (auto simp: get_file_links_def session_get_eq Let_def
           split: option.splits sum.splits if_splits)

lemma download_file_keeps_lookup:
  "lookup (download_history s) c name = Some r \<Longrightarrow>
   lookup (download_history (snd (download_file E c2 n2 u2 s))) c name = Some r"
  by (auto simp: download_file_def session_get_eq Let_def lookup_record_download
                 already_downloaded_lookup
           split: sum.splits)

lemma download_file_keeps_file:
  "p \<noteq> file_path E c n2 \<Longrightarrow> files (snd (download_file E c n2 u2 s)) p = files s p"
  by (auto simp: download_file_def session_get_eq Let_def file_path_def split: sum.splits)

lemma download_file_hit_files:
  "already_downloaded (download_history s) c n2 \<Longrightarrow>
   files (snd (download_file E c n2 u2 s)) = files s"
  by (simp add: download_file_hit)

lemma download_loop_keeps:
  assumes "lookup (download_history t) c name = Some r"
      and "CHR ''/'' \<notin> set name"
      and "\<forall>x \<in> set items. CHR ''/'' \<notin> set (fst x)"
  shows "lookup (download_history (snd (download_loop E c items k t))) c name = Some r
       \<and> files (snd (download_loop E c items k t)) (file_path E c name)
           = files t (file_path E c name)"
  using assms
proof (induction items arbitrary: k t)
  case Nil
  then show ?case by simp
next
  case (Cons item rest)
  obtain n2 u2 where item: "item = (n2, u2)" by (cases item)
  obtain res t1 where df: "download_file E c n2 u2 t = (res, t1)"
    by (cases "download_file E c n2 u2 t")
  from download_file_keeps_lookup [OF Cons.prems(1), of E c n2 u2] df
  have lk: "lookup (download_history t1) c name = Some r" by simp
  have fl: "files t1 (file_path E c name) = files t (file_path E c name)"
  proof (cases "n2 = name")
    case True
    with Cons.prems(1) have "already_downloaded (download_history t) c n2"
      by (simp add: already_downloaded_lookup)
    from download_file_hit_files [OF this, of E u2] df show ?thesis by simp
  next
    case False
    from Cons.prems(3) have "CHR ''/'' \<notin> set n2" by (simp add: item)
    with False Cons.prems(2) have "file_path E c name \<noteq> file_path E c n2"
      by (auto dest: file_path_inj)
    from download_file_keeps_file [OF this, of u2 t] df show ?thesis by simp
  qed
  show ?case
  proof (cases res)
    case (Inl e)
    with df lk fl show ?thesis by (simp add: item)
  next
    case (Inr b)
    let ?k = "if b then k + 1 else k"
    have step: "download_loop E c (item # rest) k t = download_loop E c rest ?k (sleep 1 t1)"
      by (simp add: item df Inr)
    from lk have lk': "lookup (download_history (sleep 1 t1)) c name = Some r" by simp
    from Cons.prems(3) have rest: "\<forall>x \<in> set rest. CHR ''/'' \<notin> set (fst x)" by simp
    from Cons.IH [OF lk' Cons.prems(2) rest, of ?k] fl show ?thesis
      unfolding step by simp
  qed
qed

lemma subseq_singleton_right: "subseq att [x] \<Longrightarrow> att = [] \<or> att = [x]"
proof (cases att)
  case Nil
  then show ?thesis by simp
next
  case (Cons a as)
  assume s: "subseq att [x]"
  from list_emb_length [OF s] Cons have as: "as = []" by simp
  from s Cons as have "subseq [a] [x]" by simp
  then have "a \<in> set [x]" by (simp only: subseq_singleton_left)
  then have "a = x" by simp
  with as Cons show ?thesis by simp
qed

text \<open>
  Claim C10. Every item that \<open>get_file_links\<close> returns is named by the basename of its
  URL, so two links whose URLs end in the same file name give two items with one name.
  When the loop of \<open>process_sport\<close> reaches such an item, the name is not yet in the
  history and the download succeeds, then at the end of the loop the history holds for
  that name the record with the URL of that first item, the file of that name holds the
  content served for that URL, and no request was sent for any later item with that
  name.
\<close>

theorem basename_collision_first_wins:
  assumes "get_file_links E sport_code s = (Inr links, s0)"
      and "links = pre @ (name, u1) # post"
      and "lookup (download_history t) sport_code name = None"
      and "net E (length (requests t)) (GET u1) = Inr resp"
      and "status_code resp = 200"
  shows "(\<forall>x \<in> set links. fst x = basename (snd x))
       \<and> lookup (download_history (snd (download_loop E sport_code ((name, u1) # post) k t)))
            sport_code name
           = Some \<lparr>downloaded_at = now_isoformat E (Suc (length (requests t))), url = u1\<rparr>
       \<and> files (snd (download_loop E sport_code ((name, u1) # post) k t))
            (file_path E sport_code name) = Some (content resp)
       \<and> (\<exists>att. subseq att post \<and> name \<notin> fst ` set att
            \<and> requests (snd (download_loop E sport_code ((name, u1) # post) k t))
                = requests t @ GET u1 # map (GET \<circ> snd) att)"
proof -
  let ?r = "\<lparr>downloaded_at = now_isoformat E (Suc (length (requests t))), url = u1\<rparr>"
  have names: "\<forall>x \<in> set links. fst x = basename (snd x)"
    using get_file_links_items [OF assms(1)] by blast
  then have slash: "\<forall>x \<in> set links. CHR ''/'' \<notin> set (fst x)"
    by (metis basename_no_slash)
  from slash assms(2) have sl_name: "CHR ''/'' \<notin> set name"
    and sl_post: "\<forall>x \<in> set post. CHR ''/'' \<notin> set (fst x)"
    by auto
  from assms(3) have miss: "\<not> already_downloaded (download_history t) sport_code name"
    by (simp add: already_downloaded_lookup)
  from download_file_ok [OF miss assms(4,5)] obtain t1 where
    df: "download_file E sport_code name u1 t = (Inr True, t1)"
    and rq: "requests t1 = requests t @ [GET u1]"
    and fl: "files t1 = (files t)(file_path E sport_code name \<mapsto> content resp)"
    and dh: "download_history t1 = record_download sport_code name ?r (download_history t)"
    by blast
  let ?t2 = "sleep 1 t1"
  have step: "download_loop E sport_code ((name, u1) # post) k t
                = download_loop E sport_code post (k + 1) ?t2"
    by (simp add: df)
  have lk: "lookup (download_history ?t2) sport_code name = Some ?r"
    by (simp add: dh lookup_record_download)
  from download_loop_keeps [OF lk sl_name sl_post, of E "k + 1"]
  have keep: "lookup (download_history (snd (download_loop E sport_code post (k + 1) ?t2)))
                sport_code name = Some ?r"
    "files (snd (download_loop E sport_code post (k + 1) ?t2)) (file_path E sport_code name)
       = Some (content resp)"
    by (simp_all add: fl)
  from download_loop_attempts [of post E sport_code "k + 1" ?t2] obtain att where
    att: "subseq att post"
      "requests (snd (download_loop E sport_code post (k + 1) ?t2))
         = requests ?t2 @ map (GET \<circ> snd) att"
      "fst ` set att \<inter> names_of (download_history ?t2) sport_code = {}"
    by blast
  have "name \<in> names_of (download_history ?t2) sport_code"
    by (simp add: dh names_of_record_download)
  with att(3) have "name \<notin> fst ` set att" by blast
  with att(1,2) have
    "\<exists>att. subseq att post \<and> name \<notin> fst ` set att
        \<and> requests (snd (download_loop E sport_code post (k + 1) ?t2))
            = requests t @ GET u1 # map (GET \<circ> snd) att"
    by (auto simp: rq)
  with names keep show ?thesis unfolding step by blast
qed

theorem basename_collision_first_wins_witness:
  "basename ''http://www.kostats.com/CBK_Subscription/B.TXT'' = ''B.TXT''
   \<and> basename ''http://www.kostats.com/CBK_Subscription/old/B.TXT'' = ''B.TXT''
   \<and> lookup (download_history (snd (download_loop demo_env ''CBK''
        [(''B.TXT'', ''http://www.kostats.com/CBK_Subscription/B.TXT''),
         (''B.TXT'', ''http://www.kostats.com/CBK_Subscription/old/B.TXT'')] 0
        (snd (get_file_links demo_env ''CBK'' demo_state))))) ''CBK'' ''B.TXT''
       = Some \<lparr>downloaded_at = ''2024-01-01T00:00:00'',
               url = ''http://www.kostats.com/CBK_Subscription/B.TXT''\<rparr>
   \<and> files (snd (download_loop demo_env ''CBK''
        [(''B.TXT'', ''http://www.kostats.com/CBK_Subscription/B.TXT''),
         (''B.TXT'', ''http://www.kostats.com/CBK_Subscription/old/B.TXT'')] 0
        (snd (get_file_links demo_env ''CBK'' demo_state)))) ''downloads/CBK/B.TXT''
       = Some ''data of http://www.kostats.com/CBK_Subscription/B.TXT''
   \<and> requests (snd (download_loop demo_env ''CBK''
        [(''B.TXT'', ''http://www.kostats.com/CBK_Subscription/B.TXT''),
         (''B.TXT'', ''http://www.kostats.com/CBK_Subscription/old/B.TXT'')] 0
        (snd (get_file_links demo_env ''CBK'' demo_state))))
       = [GET ''http://www.kostats.com/CBK_Subscription/CBK.HTM'',
          GET ''http://www.kostats.com/CBK_Subscription/B.TXT'']"
proof -
  let ?u1 = "''http://www.kostats.com/CBK_Subscription/B.TXT''"
  let ?u2 = "''http://www.kostats.com/CBK_Subscription/old/B.TXT''"
  let ?s0 = "snd (get_file_links demo_env ''CBK'' demo_state)"
  let ?resp = "\<lparr>status_code = 200, body_text = ?u1, content = ''data of '' @ ?u1\<rparr>"
  let ?fin = "snd (download_loop demo_env ''CBK'' [(''B.TXT'', ?u1), (''B.TXT'', ?u2)] 0 ?s0)"
  have split: "[(''A.TXT'', ''http://www.kostats.com/CBK_Subscription/A.TXT''),
                (''B.TXT'', ?u1), (''B.TXT'', ?u2)]
               = [(''A.TXT'', ''http://www.kostats.com/CBK_Subscription/A.TXT'')]
                 @ (''B.TXT'', ?u1) # [(''B.TXT'', ?u2)]"
    by simp
  have h0: "download_history ?s0 = download_history demo_state"
    using get_file_links_frame [of demo_env "''CBK''" demo_state] by simp
  have "lookup (download_history demo_state) ''CBK'' ''B.TXT'' = None"
    by (simp add: lookup_def demo_state_def demo_history_def)
  then have lk: "lookup (download_history ?s0) ''CBK'' ''B.TXT'' = None"
    by (simp only: h0)
  have "net demo_env i (GET ?u1) = Inr ?resp" for i
    by (simp add: demo_env_def demo_net_def endswith_def LOGIN_URL_def)
  then have n: "net demo_env (length (requests ?s0)) (GET ?u1) = Inr ?resp" .
  have c: "status_code ?resp = 200" by simp
  note th = basename_collision_first_wins [OF demo_links(1) split lk n c, of 0]
  define fin where
    "fin = snd (download_loop demo_env ''CBK'' [(''B.TXT'', ?u1), (''B.TXT'', ?u2)] 0 ?s0)"
  note th2 = th [THEN conjunct2, THEN conjunct1, folded fin_def]
  note th3 = th [THEN conjunct2, THEN conjunct2, THEN conjunct1, folded fin_def]
  note th4 = th [THEN conjunct2, THEN conjunct2, THEN conjunct2, folded fin_def]
  have b1: "basename ?u1 = ''B.TXT''" by (simp add: basename_def)
  have b2: "basename ?u2 = ''B.TXT''" by (simp add: basename_def)
  have p: "file_path demo_env ''CBK'' ''B.TXT'' = ''downloads/CBK/B.TXT''"
    by (simp add: file_path_def os_path_join_def join_step_def startswith_def endswith_def
          demo_env_def)
  have now: "now_isoformat demo_env i = ''2024-01-01T00:00:00''" for i
    by (simp add: demo_env_def)
  have a1: "lookup (download_history fin) ''CBK'' ''B.TXT''
       = Some \<lparr>downloaded_at = ''2024-01-01T00:00:00'', url = ?u1\<rparr>"
    using th2 unfolding now .
  have a2: "files fin ''downloads/CBK/B.TXT''
              = Some ''data of http://www.kostats.com/CBK_Subscription/B.TXT''"
    using th3 unfolding p by simp
  from th4 obtain att where att: "subseq att [(''B.TXT'', ?u2)]" "''B.TXT'' \<notin> fst ` set att"
     "requests fin = requests ?s0 @ GET ?u1 # map (GET \<circ> snd) att"
    by (elim exE conjE)
  from subseq_singleton_right [OF att(1)] have "att = [] \<or> att = [(''B.TXT'', ?u2)]" .
  moreover have "att \<noteq> [(''B.TXT'', ?u2)]" using att(2) by auto
  ultimately have "att = []" by blast
  with att(3) have a3: "requests fin = [GET ''http://www.kostats.com/CBK_Subscription/CBK.HTM'', GET ?u1]"
    by (simp add: demo_links(2))
  from b1 b2 a1 a2 a3 show ?thesis unfolding fin_def by (intro conjI)
qed

section \<open>Sport codes that are not configured\<close>


lemma download_file_frame_other:
  "c' \<noteq> c \<Longrightarrow> download_history (snd (download_file E c n u s)) c' = download_history s c'"
  by (auto simp: download_file_def session_get_eq Let_def record_download_other split: sum.splits)

lemma download_loop_frame_other:
  "c' \<noteq> c \<Longrightarrow> download_history (snd (download_loop E c items k s)) c' = download_history s c'"
proof (induction items arbitrary: k s)
  case Nil
  show ?case by simp
next
  case (Cons item rest)
  obtain n u where item: "item = (n, u)" by (cases item)
  obtain res s1 where df: "download_file E c n u s = (res, s1)"
    by (cases "download_file E c n u s")
  from download_file_frame_other [OF Cons.prems, of E n u s] df
  have fr: "download_history s1 c' = download_history s c'" by simp
  show ?case
  proof (cases res)
    case (Inl e)
    with df fr show ?thesis by (simp add: item)
  next
    case (Inr b)
    from Cons.IH [OF Cons.prems, of "if b then k + 1 else k" "sleep 1 s1"] df fr Inr
    show ?thesis by (simp add: item)
  qed
qed

lemma process_sport_history:
  "download_history (snd (process_sport E c s))
     = download_history (snd (download_loop E c (case fst (get_file_links E c s) of Inl e \<Rightarrow> [] | Inr B \<Rightarrow> B) 0
                                (snd (get_file_links E c s))))"
  by (cases "get_file_links E c s") (simp add: process_sport_def split: sum.splits prod.splits)

lemma process_sport_frame_other:
  "c' \<noteq> c \<Longrightarrow> download_history (snd (process_sport E c s)) c' = download_history s c'"
  using get_file_links_frame [of E c s]
  by (simp add: process_sport_history download_loop_frame_other)

lemma sports_loop_frame:
  "c' \<notin> set codes \<Longrightarrow> download_history (snd (sports_loop E codes n s)) c' = download_history s c'"
proof (induction codes arbitrary: n s)
  case Nil
  show ?case by simp
next
  case (Cons c rest)
  then have ne: "c' \<noteq> c" and nin: "c' \<notin> set rest" by auto
  obtain res s1 where ps: "process_sport E c s = (res, s1)" by (cases "process_sport E c s")
  from process_sport_frame_other [OF ne, of E s] ps
  have fr: "download_history s1 c' = download_history s c'" by simp
  show ?case
  proof (cases res)
    case (Inl e)
    with ps fr show ?thesis by simp
  next
    case (Inr m)
    from Cons.IH [OF nin, of "n + m" s1] ps fr Inr show ?thesis by simp
  qed
qed

lemma save_download_history_proj [simp]:
  "download_history (save_download_history E s) = download_history s"
  "files (save_download_history E s)
     = (files s)(HISTORY_FILE E \<mapsto> json_dump E (download_history s))"
  "requests (save_download_history E s) = requests s"
  by (simp_all add: save_download_history_def)

lemma run_login_true:
  "fst (login E s) = Inr True \<Longrightarrow>
   run E s = (case sports_loop E (map fst SPORT_PAGES) 0 (snd (login E s)) of
               (Inl e, s2) \<Rightarrow> (Inl e, s2)
             | (Inr total_downloaded, s2) \<Rightarrow>
                 (Inr (),
                  log_info (''Scraper completed. Downloaded '' @ str_nat total_downloaded
                            @ '' new files in total.'')
                    (save_download_history E s2)))"
  by (cases "login E s") (simp add: run_def)

lemma download_file_no_raise:
  assumes "\<And>n r e. net E n r \<noteq> Inl e"
  shows "\<exists>b. fst (download_file E c name u s) = Inr b"
  using assms [of "length (requests s)" "GET u"]
  by (auto simp: download_file_def session_get_eq Let_def split: sum.splits)

lemma download_loop_no_raise:
  assumes "\<And>n r e. net E n r \<noteq> Inl e"
  shows "\<exists>m. fst (download_loop E c items k s) = Inr m"
proof (induction items arbitrary: k s)
  case Nil
  show ?case by simp
next
  case (Cons item rest)
  obtain name u where item: "item = (name, u)" by (cases item)
  obtain res s1 where df: "download_file E c name u s = (res, s1)"
    by (cases "download_file E c name u s")
  from download_file_no_raise [OF assms, of c name u s] df obtain b where "res = Inr b" by auto
  with Cons.IH [of "if b then k + 1 else k" "sleep 1 s1"] df show ?case
    by (simp add: item)
qed

lemma get_file_links_no_raise:
  assumes "\<And>n r e. net E n r \<noteq> Inl e"
  shows "\<exists>B. fst (get_file_links E c s) = Inr B"
  using assms [of "length (requests s)"]
  by (auto simp: get_file_links_def session_get_eq Let_def split: option.splits sum.splits)

lemma process_sport_no_raise:
  assumes "\<And>n r e. net E n r \<noteq> Inl e"
  shows "\<exists>m. fst (process_sport E c s) = Inr m"
proof -
  obtain r s1 where g: "get_file_links E c s = (r, s1)" by (cases "get_file_links E c s")
  from get_file_links_no_raise [OF assms, of c s] g obtain B where B: "r = Inr B" by auto
  obtain r2 s2 where l: "download_loop E c B 0 s1 = (r2, s2)"
    by (cases "download_loop E c B 0 s1")
  from download_loop_no_raise [OF assms, of c B 0 s1] l obtain m where "r2 = Inr m" by auto
  with g B l show ?thesis by (simp add: process_sport_def)
qed

lemma sports_loop_no_raise:
  assumes "\<And>n r e. net E n r \<noteq> Inl e"
  shows "\<exists>m. fst (sports_loop E codes k s) = Inr m"
proof (induction codes arbitrary: k s)
  case Nil
  show ?case by simp
next
  case (Cons c rest)
  obtain r s1 where p: "process_sport E c s = (r, s1)" by (cases "process_sport E c s")
  from process_sport_no_raise [OF assms, of c s] p obtain m where "r = Inr m" by auto
  with Cons.IH [of "k + m" s1] p show ?case by simp
qed

lemma run_no_raise:
  assumes "\<And>n r e. net E n r \<noteq> Inl e" and "fst (login E s) = Inr True"
  shows "fst (run E s) = Inr ()"
proof -
  obtain r s2 where l: "sports_loop E (map fst SPORT_PAGES) 0 (snd (login E s)) = (r, s2)"
    by (cases "sports_loop E (map fst SPORT_PAGES) 0 (snd (login E s))")
  from sports_loop_no_raise [OF assms(1), of "map fst SPORT_PAGES" 0 "snd (login E s)"] l
  obtain m where "r = Inr m" by auto
  with run_login_true [OF assms(2)] l show ?thesis by simp
qed

lemma demo_net_answers: "net demo_env n r \<noteq> Inl e"
  by (cases r) (simp_all add: demo_env_def demo_net_def)

lemma demo_login: "fst (login demo_env demo_state) = Inr True"
proof -
  have g: "net demo_env n (GET LOGIN_URL)
             = Inr \<lparr>status_code = 200, body_text = ''login'', content = ''login''\<rparr>" for n
    by (simp add: demo_env_def demo_net_def LOGIN_URL_def)
  have p: "net demo_env n (POST u d)
             = Inr \<lparr>status_code = 200, body_text = ''<a href=x>Logout</a>'', content = []\<rparr>" for n u d
    by (simp add: demo_env_def demo_net_def)
  have f: "find_login_form demo_env ''login''
             = Some \<lparr>form_action = Some ''/amember5/login'',
                     form_inputs = [(Some ''login_attempt_id'', Some ''7''), (None, Some ''x'')]\<rparr>"
    by (simp add: demo_env_def)
  have c: "contains (lower ''<a href=x>Logout</a>'') ''logout''"
    by code_simp
  show ?thesis
    by (simp add: login_def session_get_eq session_post_eq g p f c Let_def)
qed

text \<open>
  Claim C9. For a sport code that is no key of \<open>SPORT_PAGES\<close>, what the history holds
  for it after \<open>run\<close> is what it held before, however the run ends. When the login
  succeeds and the run returns, the history file holds the dump of the final history,
  and so, for that code, of the very dictionary the run started with.
\<close>

theorem run_frame_unconfigured:
  assumes "sport_code \<notin> fst ` set SPORT_PAGES"
  shows "download_history (snd (run E s)) sport_code = download_history s sport_code
       \<and> (fst (login E s) = Inr True \<and> fst (run E s) = Inr () \<longrightarrow>
            files (snd (run E s)) (HISTORY_FILE E)
              = Some (json_dump E (download_history (snd (run E s)))))"
proof (cases "fst (login E s) = Inr True")
  case False
  then have "download_history (snd (run E s)) = download_history s"
  proof (cases "fst (login E s)")
    case (Inl e)
    from run_login_raise [OF Inl] login_frame [of E s] show ?thesis by simp
  next
    case (Inr b)
    with False have "fst (login E s) = Inr False" by simp
    from run_login_false [OF this] login_frame [of E s] show ?thesis by simp
  qed
  with False show ?thesis by simp
next
  case True
  let ?s1 = "snd (login E s)"
  obtain res s2 where sl: "sports_loop E (map fst SPORT_PAGES) 0 ?s1 = (res, s2)"
    by (cases "sports_loop E (map fst SPORT_PAGES) 0 ?s1")
  from assms have "sport_code \<notin> set (map fst SPORT_PAGES)" by simp
  from sports_loop_frame [OF this, of E 0 ?s1] sl login_frame [of E s]
  have fr: "download_history s2 sport_code = download_history s sport_code" by simp
  show ?thesis
  proof (cases res)
    case (Inl e)
    with run_login_true [OF True] sl fr show ?thesis by simp
  next
    case (Inr total)
    with run_login_true [OF True] sl fr show ?thesis by simp
  qed
qed

theorem run_frame_unconfigured_witness:
  "''XFL'' \<notin> fst ` set SPORT_PAGES
   \<and> download_history demo_state ''XFL'' = Some [''OLD.TXT'' \<mapsto> demo_record]
   \<and> download_history (snd (run demo_env demo_state)) ''XFL'' = Some [''OLD.TXT'' \<mapsto> demo_record]
   \<and> fst (login demo_env demo_state) = Inr True
   \<and> fst (run demo_env demo_state) = Inr ()
   \<and> files (snd (run demo_env demo_state)) ''downloads/download_history.json''
       = Some (json_dump demo_env (download_history (snd (run demo_env demo_state))))"
proof -
  have a: "''XFL'' \<notin> fst ` set SPORT_PAGES" by (simp add: SPORT_PAGES_def)
  have b: "download_history demo_state ''XFL'' = Some [''OLD.TXT'' \<mapsto> demo_record]"
    by (simp add: demo_state_def demo_history_def)
  note r = run_no_raise [OF demo_net_answers demo_login]
  note th = run_frame_unconfigured [OF a, of demo_env demo_state]
  from th b have c: "download_history (snd (run demo_env demo_state)) ''XFL''
                       = Some [''OLD.TXT'' \<mapsto> demo_record]"
    by (simp only:)
  from th demo_login r have d: "files (snd (run demo_env demo_state)) (HISTORY_FILE demo_env)
       = Some (json_dump demo_env (download_history (snd (run demo_env demo_state))))"
    by blast
  from a b c demo_login r d show ?thesis unfolding HISTORY_FILE_demo by (intro conjI)
qed

section \<open>A failed download leaves no trace\<close>






section \<open>Persisting the history\<close>

text \<open>
  Claim C2, as stated: a crash during the save leaves the previous history file intact.
  It does not: \<open>save_download_history\<close> opens the history file itself for writing,
  which truncates it. Here the file holds a history that loads; after the \<^verbatim>\<open>open\<close> the
  file is empty, and loading it gives the empty history.
\<close>

theorem save_download_history_not_atomic_counterexample:
  "files demo_state ''downloads/download_history.json'' = Some ''<json>''
   \<and> lookup (fst (load_download_history demo_env demo_state)) ''CBK'' ''A.TXT'' = Some demo_record
   \<and> files (save_download_history_trace demo_env demo_state ! 1) ''downloads/download_history.json''
       = Some []
   \<and> lookup (fst (load_download_history demo_env
                    (save_download_history_trace demo_env demo_state ! 1))) ''CBK'' ''A.TXT''
       = None"
proof -
  have jl: "json_load demo_env ''<json>'' = Some demo_history"
           "json_load demo_env [] = None"
    by (simp_all add: demo_env_def)
  have f: "files demo_state ''downloads/download_history.json'' = Some ''<json>''"
    by (simp add: demo_state_def)
  have a: "lookup (fst (load_download_history demo_env demo_state)) ''CBK'' ''A.TXT''
             = Some demo_record"
    by (simp add: load_download_history_def HISTORY_FILE_demo f jl lookup_def demo_history_def)
  have t: "save_download_history_trace demo_env demo_state ! 1
             = open_w ''downloads/download_history.json'' demo_state"
    by (simp add: save_download_history_trace_def HISTORY_FILE_demo)
  have b: "files (save_download_history_trace demo_env demo_state ! 1)
             ''downloads/download_history.json'' = Some []"
    unfolding t by simp
  have c: "lookup (fst (load_download_history demo_env
                    (save_download_history_trace demo_env demo_state ! 1))) ''CBK'' ''A.TXT''
       = None"
    unfolding t by (simp add: load_download_history_def HISTORY_FILE_demo jl lookup_def)
  from f a b c show ?thesis by (intro conjI)
qed

text \<open>
  Claim C2, amended. \<open>save_download_history\<close> overwrites the history file in place:
  it goes from the state before, through one where the history file is empty, to one
  where the file holds the dump of the history, nothing else being changed. A load after
  the save has completed gives what \<^verbatim>\<open>json.load\<close> makes of the dump; a load of the
  state in between, where \<^verbatim>\<open>json.load\<close> rejects the empty text, gives the empty history.
\<close>

theorem save_download_history_overwrites_in_place:
  "save_download_history_trace E s
     = [s, s\<lparr>files := (files s)(HISTORY_FILE E \<mapsto> [])\<rparr>, save_download_history E s]
   \<and> save_download_history E s
       = s\<lparr>files := (files s)(HISTORY_FILE E \<mapsto> json_dump E (download_history s))\<rparr>
   \<and> (json_load E [] = None \<longrightarrow>
        fst (load_download_history E (s\<lparr>files := (files s)(HISTORY_FILE E \<mapsto> [])\<rparr>)) = Map.empty)
   \<and> (\<forall>h. json_load E (json_dump E (download_history s)) = Some h \<longrightarrow>
        fst (load_download_history E (save_download_history E s)) = h)"
  by (simp add: save_download_history_trace_def save_download_history_def open_w_def
        file_write_def load_download_history_def)

theorem save_download_history_overwrites_in_place_witness:
  "json_load demo_env [] = None
   \<and> json_load demo_env (json_dump demo_env (download_history demo_state)) = Some demo_history
   \<and> files (save_download_history demo_env demo_state) ''downloads/download_history.json''
       = Some ''<json>''
   \<and> fst (load_download_history demo_env (save_download_history demo_env demo_state))
       = demo_history
   \<and> fst (load_download_history demo_env
             (demo_state\<lparr>files := (files demo_state)(HISTORY_FILE demo_env \<mapsto> [])\<rparr>))
       = Map.empty"
proof -
  have a: "json_load demo_env [] = None" by (simp add: demo_env_def)
  have b: "json_load demo_env (json_dump demo_env (download_history demo_state))
             = Some demo_history"
    by (simp add: demo_env_def)
  note th = save_download_history_overwrites_in_place [of demo_env demo_state]
  from th have "save_download_history demo_env demo_state
       = demo_state\<lparr>files := (files demo_state)(HISTORY_FILE demo_env
                                  \<mapsto> json_dump demo_env (download_history demo_state))\<rparr>"
    by blast
  then have c: "files (save_download_history demo_env demo_state)
                  ''downloads/download_history.json'' = Some ''<json>''"
    by (simp add: HISTORY_FILE_demo) (simp add: demo_env_def)
  from th b have d: "fst (load_download_history demo_env
                            (save_download_history demo_env demo_state)) = demo_history"
    by blast
  from th a have e: "fst (load_download_history demo_env
             (demo_state\<lparr>files := (files demo_state)(HISTORY_FILE demo_env \<mapsto> [])\<rparr>))
       = Map.empty"
    by blast
  from a b c d e show ?thesis by (intro conjI)
qed

end
